theory Spec2Isabelle
  imports Complex_Main "HOL-Library.AList" "HOL-Library.Multiset"
begin

section \<open>Python values, exceptions and dictionaries\<close>

text \<open>
  The exceptions that the modelled code can raise. A function of the source that may raise
  returns \<open>error + 'a\<close>, with \<open>Inl\<close> the exception. \<open>NodeNotFound\<close> is the exception of
  networkx for a source or target that is not a node of the graph.
\<close>

datatype error = ZeroDivisionError | KeyError | IndexError | ValueError | TypeError | NodeNotFound

text \<open>
  A float that may be \<open>np.inf\<close> (a distance of an unreachable pair, \<open>float('inf')\<close> as a
  fitness). Finite floats are modelled as reals: rounding is not modelled.
\<close>

datatype dist = Num real | PInf

fun dist_less :: "dist \<Rightarrow> dist \<Rightarrow> bool" where
  "dist_less (Num a) (Num b) = (a < b)"
| "dist_less (Num a) PInf = True"
| "dist_less PInf _ = False"

fun dist_add :: "dist \<Rightarrow> real \<Rightarrow> dist" where
  "dist_add (Num a) w = Num (a + w)"
| "dist_add PInf w = PInf"

text \<open>
  A Python dict is an association list in insertion order; \<open>d[k]\<close> is \<open>map_of d k\<close> (KeyError
  when \<open>None\<close>) and \<open>d[k] = v\<close> is \<open>AList.update k v d\<close>, which replaces in place or appends.
  An assignment maps a responder id to its ordered list of room ids.
\<close>

type_synonym assignment = "(int \<times> string list) list"

text \<open>Python list indexing: a negative index counts from the end.\<close>

definition py_index :: "'a list \<Rightarrow> int \<Rightarrow> 'a option" where
  "py_index xs i =
     (let n = int (length xs); j = (if i < 0 then n + i else i)
      in if 0 \<le> j \<and> j < n then Some (xs ! nat j) else None)"

text \<open>\<open>range(n)\<close> for an integer \<open>n\<close> (empty when \<open>n \<le> 0\<close>).\<close>

definition py_range :: "int \<Rightarrow> int list" where
  "py_range n = map int [0..<nat n]"

section \<open>Genetic optimizer: decoding a chromosome\<close>

text \<open>
  \<open>GeneticOptimizer._chromosome_to_assignment\<close>. The loop body computes
  \<open>min(i // rooms_per_responder, n_responders - 1) + 1\<close>, which raises ZeroDivisionError when
  \<open>rooms_per_responder\<close> is 0, then reads \<open>assignment[responder_id]\<close> (KeyError), then
  \<open>room_ids[room_idx]\<close> (IndexError), and appends.
\<close>

fun decode_loop :: "int \<Rightarrow> int \<Rightarrow> string list \<Rightarrow> nat \<Rightarrow> int list \<Rightarrow> assignment
    \<Rightarrow> error + assignment" where
  "decode_loop rooms_per_responder n_responders room_ids i [] asg = Inr asg"
| "decode_loop rooms_per_responder n_responders room_ids i (room_idx # rest) asg =
     (if rooms_per_responder = 0 then Inl ZeroDivisionError
      else
        let responder_id = min (int i div rooms_per_responder) (n_responders - 1) + 1 in
        case map_of asg responder_id of
          None \<Rightarrow> Inl KeyError
        | Some seq \<Rightarrow>
            (case py_index room_ids room_idx of
               None \<Rightarrow> Inl IndexError
             | Some r \<Rightarrow>
                 decode_loop rooms_per_responder n_responders room_ids (Suc i) rest
                   (AList.update responder_id (seq @ [r]) asg)))"

definition chromosome_to_assignment :: "string list \<Rightarrow> int \<Rightarrow> int list \<Rightarrow> error + assignment" where
  "chromosome_to_assignment room_ids n_responders chromosome =
     (let asg = map (\<lambda>i. (i + 1, [])) (py_range n_responders) in
      if n_responders = 0 then Inl ZeroDivisionError
      else decode_loop (int (length chromosome) div n_responders) n_responders room_ids 0
             chromosome asg)"

text \<open>
  Two notions used to state what the decoding loop does: the responder id that the loop body
  computes for position \<open>i\<close>, and the genes of a chromosome that go to a given responder.
\<close>

definition responder_of :: "int \<Rightarrow> int \<Rightarrow> nat \<Rightarrow> int" where
  "responder_of rpr k i = min (int i div rpr) (k - 1) + 1"

fun genes_of :: "int \<Rightarrow> int \<Rightarrow> int \<Rightarrow> nat \<Rightarrow> int list \<Rightarrow> int list" where
  "genes_of rpr k key i [] = []"
| "genes_of rpr k key i (g # gs) =
     (if responder_of rpr k i = key then [g] else []) @ genes_of rpr k key (Suc i) gs"

section \<open>Properties of chromosome decoding\<close>

lemma decode_loop_ok:
  assumes "rpr \<noteq> 0"
    and "\<forall>p < length c. responder_of rpr k (i + p) \<in> fst ` set asg"
    and "\<forall>g \<in> set c. py_index room_ids g \<noteq> None"
  shows "\<exists>asg'. decode_loop rpr k room_ids i c asg = Inr asg' \<and> map fst asg' = map fst asg \<and>
         (\<forall>key. map_of asg' key = map_option (\<lambda>seq. seq @ map (\<lambda>g. the (py_index room_ids g)) (genes_of rpr k key i c)) (map_of asg key))"
  using assms
proof (induction c arbitrary: i asg)
  case Nil
  then show ?case by (simp add: option.map_ident)
next
  case (Cons g gs)
  let ?rid = "responder_of rpr k i"
  from Cons.prems(2) have "?rid \<in> fst ` set asg" by force
  then obtain seq where seq: "map_of asg ?rid = Some seq"
    by (metis domD dom_map_of_conv_image_fst)
  from Cons.prems(3) obtain r where r: "py_index room_ids g = Some r" by auto
  let ?asg = "AList.update ?rid (seq @ [r]) asg"
  have keys: "map fst ?asg = map fst asg"
    using \<open>?rid \<in> fst ` set asg\<close> by (simp add: update_keys)
  have "\<forall>p < length gs. responder_of rpr k (Suc i + p) \<in> fst ` set ?asg"
  proof (intro allI impI)
    fix p assume "p < length gs"
    then have "responder_of rpr k (i + Suc p) \<in> fst ` set asg" using Cons.prems(2) by force
    then show "responder_of rpr k (Suc i + p) \<in> fst ` set ?asg"
      using keys by (metis add_Suc_shift list.set_map)
  qed
  moreover have "\<forall>g \<in> set gs. py_index room_ids g \<noteq> None" using Cons.prems(3) by simp
  ultimately obtain asg' where a: "decode_loop rpr k room_ids (Suc i) gs ?asg = Inr asg'"
    "map fst asg' = map fst ?asg"
    "\<forall>key. map_of asg' key = map_option (\<lambda>seq. seq @ map (\<lambda>g. the (py_index room_ids g)) (genes_of rpr k key (Suc i) gs)) (map_of ?asg key)"
    using Cons.IH[OF Cons.prems(1)] by blast
  have "decode_loop rpr k room_ids i (g # gs) asg = Inr asg'"
    using a(1) seq r Cons.prems(1) by (simp add: responder_of_def Let_def)
  moreover have "map fst asg' = map fst asg" using a(2) keys by simp
  moreover have "map_of asg' key = map_option (\<lambda>seq. seq @ map (\<lambda>g. the (py_index room_ids g)) (genes_of rpr k key i (g # gs))) (map_of asg key)" for key
    using a(3) seq r by (cases "map_of asg key") (auto simp: update_conv')
  ultimately show ?case by blast
qed

lemma genes_of_nths: "genes_of rpr k key i c = nths c {p. responder_of rpr k (i + p) = key}"
  by (induction c arbitrary: i) (auto simp: nths_Cons)

lemma nths_interval: "nths c {a..<a + b} = take b (drop a c)"
proof -
  have "take b (drop a c) = nths (drop a c) {..<b}" by (simp only: nths_upt_eq_take)
  also have "\<dots> = nths c ((+) a ` {..<b})" by (rule nths_drop)
  also have "(+) a ` {..<b} = {a..<a + b}" by (auto simp: image_iff) (metis le_add_diff_inverse lessThan_iff nat_add_left_cancel_less)
  finally show ?thesis by simp
qed

lemma nths_from: "nths c {p. a \<le> p} = drop a c"
  by (simp add: drop_eq_nths)

lemma blocks_concat:
  "concat (map (\<lambda>j. take b (drop (j * b) c)) [0..<m]) @ drop (m * b) c = (c::'a list)"
proof (induction m)
  case 0 show ?case by simp
next
  case (Suc m)
  have "take b (drop (m * b) c) @ drop (Suc m * b) c = drop (m * b) c"
    by (metis add.commute append_take_drop_id drop_drop mult_Suc)
  then show ?case using Suc by simp
qed


lemma div_block:
  assumes "0 < (b::nat)"
  shows "(p div b = q) = (q * b \<le> p \<and> p < q * b + b)"
proof
  assume e: "p div b = q"
  have "(p div b) * b \<le> p" by (rule div_times_less_eq_dividend)
  moreover from assms have "p < b + (p div b) * b" by (rule dividend_less_div_times)
  ultimately have "(p div b) * b \<le> p \<and> p < (p div b) * b + b" by linarith
  then show "q * b \<le> p \<and> p < q * b + b" by (simp only: e)
next
  assume a: "q * b \<le> p \<and> p < q * b + b"
  have s: "b * Suc q = q * b + b" by simp
  have c: "b * q = q * b" by (rule mult.commute)
  show "p div b = q"
  proof (rule div_nat_eqI)
    show "b * q \<le> p" using a by (simp only: c)
    show "p < b * Suc q" using a by (simp only: s)
  qed
qed

lemma responder_of_nat: "responder_of (int b) k p = min (int (p div b)) (k - 1) + 1"
  by (simp add: responder_of_def zdiv_int)

lemma responder_of_block:
  assumes "0 < b" "1 \<le> j" "j < k"
  shows "{p. responder_of (int b) k p = j} = {(nat j - 1) * b ..< (nat j - 1) * b + b}"
proof -
  have "(responder_of (int b) k p = j) = (p div b = nat j - 1)" for p
    using assms by (auto simp: responder_of_nat min_def)
  moreover have "(p div b = nat j - 1) = ((nat j - 1) * b \<le> p \<and> p < (nat j - 1) * b + b)" for p
    by (rule div_block[OF assms(1)])
  ultimately have "(responder_of (int b) k p = j) = ((nat j - 1) * b \<le> p \<and> p < (nat j - 1) * b + b)" for p
    by (simp only:)
  then have "{p. responder_of (int b) k p = j} = {p. (nat j - 1) * b \<le> p \<and> p < (nat j - 1) * b + b}"
    by (simp only:)
  also have "\<dots> = {(nat j - 1) * b ..< (nat j - 1) * b + b}"
    by (rule set_eqI) (simp only: mem_Collect_eq atLeastLessThan_iff)
  finally show ?thesis .
qed

lemma responder_of_last:
  assumes "0 < b" "1 \<le> k"
  shows "{p. responder_of (int b) k p = k} = {p. (nat k - 1) * b \<le> p}"
proof -
  have "(responder_of (int b) k p = k) = (nat k - 1 \<le> p div b)" for p
    using assms by (auto simp: responder_of_nat min_def)
  moreover have "(nat k - 1 \<le> p div b) = ((nat k - 1) * b \<le> p)" for p
    using assms(1) by (rule less_eq_div_iff_mult_less_eq)
  ultimately show ?thesis by (simp only:)
qed

lemma responder_of_range:
  assumes "0 < b" "1 \<le> k"
  shows "1 \<le> responder_of (int b) k p \<and> responder_of (int b) k p \<le> k"
  using assms by (auto simp: responder_of_nat min_def)


lemma py_index_valid: "0 \<le> g \<Longrightarrow> g < int (length xs) \<Longrightarrow> py_index xs g = Some (xs ! nat g)"
  by (simp add: py_index_def)

lemma map_snd_map_of:
  "distinct (map fst al) \<Longrightarrow> map snd al = map (\<lambda>k. the (map_of al k)) (map fst al)"
proof (induction al)
  case Nil
  show ?case by simp
next
  case (Cons a al)
  have "fst a \<notin> set (map fst al)" using Cons.prems by (simp del: set_map)
  then have "map (\<lambda>k. the (map_of (a # al) k)) (map fst al) = map (\<lambda>k. the (map_of al k)) (map fst al)"
    by (intro map_cong refl) (cases a, auto)
  moreover have "map snd al = map (\<lambda>k. the (map_of al k)) (map fst al)"
    using Cons by simp
  moreover have "the (map_of (a # al) (fst a)) = snd a" by (cases a) simp
  ultimately show ?case by (simp only: list.map)
qed

lemma map_of_initial: "key \<in> set ks \<Longrightarrow> map_of (map (\<lambda>i. (i, [])) ks) key = Some []"
  by (induction ks) auto

text \<open>
  Claim C6. For a chromosome that is a permutation of the \<open>n\<close> room indices and an agent count
  \<open>k\<close> with \<open>1 \<le> k \<le> n\<close>, decoding returns an assignment with the keys \<open>1..k\<close> in which each
  of the agents \<open>1..k-1\<close> has the block of \<open>n div k\<close> consecutive genes that starts at position
  \<open>(j-1) * (n div k)\<close>, agent \<open>k\<close> has all the remaining genes, the sequences concatenated in
  agent order are the chromosome itself (as room ids), and so every room occurs exactly once.
\<close>

theorem chromosome_decoding_blocks:
  fixes room_ids :: "string list" and k :: int and chromosome :: "int list"
  assumes perm: "mset chromosome = mset (py_range (int (length room_ids)))"
    and k: "1 \<le> k" "k \<le> int (length room_ids)"
    and dist: "distinct room_ids"
  shows "\<exists>asg. chromosome_to_assignment room_ids k chromosome = Inr asg
     \<and> map fst asg = map (\<lambda>i. i + 1) (py_range k)
     \<and> (\<forall>j. 1 \<le> j \<and> j < k \<longrightarrow>
           map_of asg j = Some (map (\<lambda>g. room_ids ! nat g)
             (take (length chromosome div nat k)
                (drop ((nat j - 1) * (length chromosome div nat k)) chromosome))))
     \<and> map_of asg k = Some (map (\<lambda>g. room_ids ! nat g)
           (drop ((nat k - 1) * (length chromosome div nat k)) chromosome))
     \<and> concat (map snd asg) = map (\<lambda>g. room_ids ! nat g) chromosome
     \<and> mset (concat (map snd asg)) = mset room_ids
     \<and> distinct (concat (map snd asg))"
proof -
  define n where "n = length room_ids"
  define b where "b = length chromosome div nat k"
  define room where "room = (\<lambda>g. room_ids ! nat g)"
  define asg0 :: assignment where "asg0 = map (\<lambda>i. (i + 1, [])) (py_range k)"
  have len: "length chromosome = n"
    using perm by (metis length_map length_upt minus_nat.diff_0 nat_int n_def py_range_def size_mset)
  have genes: "set chromosome = int ` {0..<n}"
    using perm by (metis list.set_map n_def nat_int py_range_def set_mset_mset set_upt)
  have b_pos: "0 < b"
    using k len by (simp add: b_def n_def div_greater_zero_iff nat_le_iff)
  have rpr: "int (length chromosome) div k = int b"
    using k by (simp add: b_def zdiv_int)
  have keys0: "map fst asg0 = map (\<lambda>i. i + 1) (py_range k)"
    by (simp add: asg0_def comp_def)
  have keyset: "fst ` set asg0 = {1..k}"
  proof -
    have "fst ` set asg0 = (\<lambda>i. int i + 1) ` {0..<nat k}"
      by (auto simp: asg0_def py_range_def image_iff)
    also have "\<dots> = {1..k}"
    proof (intro set_eqI iffI)
      fix x assume "x \<in> (\<lambda>i. int i + 1) ` {0..<nat k}"
      then show "x \<in> {1..k}" by auto
    next
      fix x assume "x \<in> {1..k}"
      then have "x = int (nat (x - 1)) + 1" "nat (x - 1) \<in> {0..<nat k}" by auto
      then show "x \<in> (\<lambda>i. int i + 1) ` {0..<nat k}" by (rule image_eqI)
    qed
    finally show ?thesis .
  qed
  have init: "map_of asg0 j = Some []" if "1 \<le> j" "j \<le> k" for j
  proof -
    have "asg0 = map (\<lambda>i. (i, [])) (map (\<lambda>i. i + 1) (py_range k))"
      by (simp add: asg0_def comp_def)
    moreover have "j \<in> set (map (\<lambda>i. i + 1) (py_range k))"
      using that keyset keys0 by (metis atLeastAtMost_iff list.set_map)
    ultimately show ?thesis by (simp only: map_of_initial)
  qed
  have valid: "\<forall>g \<in> set chromosome. py_index room_ids g = Some (room g)"
    using genes by (auto simp: py_index_valid n_def room_def)
  have "\<forall>p < length chromosome. responder_of (int b) k (0 + p) \<in> fst ` set asg0"
    using responder_of_range[OF b_pos k(1)] keyset by auto
  moreover have "\<forall>g \<in> set chromosome. py_index room_ids g \<noteq> None" using valid by simp
  moreover have "int b \<noteq> 0" using b_pos by simp
  ultimately obtain asg where asg:
    "decode_loop (int b) k room_ids 0 chromosome asg0 = Inr asg"
    "map fst asg = map fst asg0"
    "\<And>key. map_of asg key = map_option (\<lambda>seq. seq @ map (\<lambda>g. the (py_index room_ids g))
        (genes_of (int b) k key 0 chromosome)) (map_of asg0 key)"
    using decode_loop_ok[of "int b" chromosome k 0 asg0 room_ids] by blast
  have sel: "map (\<lambda>g. the (py_index room_ids g)) (nths chromosome I) = map room (nths chromosome I)" for I
    using valid by (auto dest: in_set_nthsD)
  have entry: "map_of asg j = Some (map room (nths chromosome {p. responder_of (int b) k p = j}))"
    if "1 \<le> j" "j \<le> k" for j
    using asg(3)[of j] init[OF that] by (simp add: genes_of_nths sel)
  have blk: "map_of asg j = Some (map room (take b (drop ((nat j - 1) * b) chromosome)))"
    if "1 \<le> j" "j < k" for j
    using entry[of j] that responder_of_block[OF b_pos that] by (simp add: nths_interval)
  have lst: "map_of asg k = Some (map room (drop ((nat k - 1) * b) chromosome))"
    using entry[of k] k responder_of_last[OF b_pos k(1)] by (simp add: nths_from)
  have run: "chromosome_to_assignment room_ids k chromosome = Inr asg"
    using asg(1) k rpr by (simp add: chromosome_to_assignment_def asg0_def)
  have dk: "distinct (map fst asg)"
    by (simp add: asg(2) keys0 py_range_def distinct_map inj_on_def)
  define m where "m = nat k - 1"
  have "nat k = Suc m" using k by (simp add: m_def)
  then have up: "[0..<nat k] = [0..<m] @ [m]" by simp
  have mk: "int m + 1 = k" using k by (simp add: m_def)
  have ks: "map fst asg = map (\<lambda>i. int i + 1) [0..<m] @ [k]"
    using mk by (simp add: asg(2) keys0 py_range_def up comp_def)
  have "map snd asg = map (\<lambda>j. the (map_of asg j)) (map fst asg)"
    by (rule map_snd_map_of[OF dk])
  also have "\<dots> = map (\<lambda>i. the (map_of asg (int i + 1))) [0..<m] @ [the (map_of asg k)]"
    by (simp add: ks comp_def)
  also have "map (\<lambda>i. the (map_of asg (int i + 1))) [0..<m]
      = map (\<lambda>i. map room (take b (drop (i * b) chromosome))) [0..<m]"
  proof (rule map_cong[OF refl])
    fix i assume "i \<in> set [0..<m]"
    then have "1 \<le> int i + 1" "int i + 1 < k" using mk by auto
    moreover have "nat (int i + 1) - 1 = i" by (simp add: nat_add_distrib)
    ultimately show "the (map_of asg (int i + 1)) = map room (take b (drop (i * b) chromosome))"
      using blk[of "int i + 1"] by simp
  qed
  finally have "map snd asg = map (\<lambda>i. map room (take b (drop (i * b) chromosome))) [0..<m]
      @ [map room (drop (m * b) chromosome)]"
    using lst by (simp add: m_def)
  then have "concat (map snd asg)
      = map room (concat (map (\<lambda>i. take b (drop (i * b) chromosome)) [0..<m]) @ drop (m * b) chromosome)"
    by (simp add: map_concat comp_def)
  then have cc: "concat (map snd asg) = map room chromosome"
    by (simp only: blocks_concat)
  have "mset (map room chromosome) = mset (map room (py_range (int n)))"
    using perm by (metis mset_map n_def)
  also have "map room (py_range (int n)) = map ((!) room_ids) [0..<n]"
    by (simp add: py_range_def room_def comp_def)
  also have "\<dots> = room_ids" by (simp add: n_def map_nth)
  finally have ms: "mset (concat (map snd asg)) = mset room_ids" using cc by simp
  then have "distinct (concat (map snd asg))"
    using dist by (metis mset_eq_imp_distinct_iff)
  moreover have "map fst asg = map (\<lambda>i. i + 1) (py_range k)"
    using asg(2) keys0 by simp
  moreover have "\<forall>j. 1 \<le> j \<and> j < k \<longrightarrow>
      map_of asg j = Some (map room (take b (drop ((nat j - 1) * b) chromosome)))"
    using blk by blast
  moreover have "map_of asg k = Some (map room (drop ((nat k - 1) * b) chromosome))"
    using lst by (simp add: m_def)
  ultimately have "chromosome_to_assignment room_ids k chromosome = Inr asg
     \<and> map fst asg = map (\<lambda>i. i + 1) (py_range k)
     \<and> (\<forall>j. 1 \<le> j \<and> j < k \<longrightarrow>
           map_of asg j = Some (map room (take b (drop ((nat j - 1) * b) chromosome))))
     \<and> map_of asg k = Some (map room (drop ((nat k - 1) * b) chromosome))
     \<and> concat (map snd asg) = map room chromosome
     \<and> mset (concat (map snd asg)) = mset room_ids
     \<and> distinct (concat (map snd asg))"
    using run cc ms by simp
  then show ?thesis unfolding b_def room_def by (rule exI)
qed

theorem chromosome_decoding_blocks_witness:
  "mset [2, 0, 1] = mset (py_range (int (length [''R1'', ''R2'', ''R3''])))
   \<and> (1::int) \<le> 2 \<and> (2::int) \<le> int (length [''R1'', ''R2'', ''R3''])
   \<and> distinct [''R1'', ''R2'', ''R3'']
   \<and> (\<exists>asg. chromosome_to_assignment [''R1'', ''R2'', ''R3''] 2 [2, 0, 1] = Inr asg
        \<and> concat (map snd asg) = [''R3'', ''R1'', ''R2''])"
proof -
  have r: "py_range (int (length [''R1'', ''R2'', ''R3''])) = [0, 1, 2]"
    by code_simp
  have h1: "mset [2, 0, 1] = mset (py_range (int (length [''R1'', ''R2'', ''R3''])))"
    unfolding r by simp
  have h2: "(1::int) \<le> 2" "(2::int) \<le> int (length [''R1'', ''R2'', ''R3''])" by simp_all
  have h3: "distinct [''R1'', ''R2'', ''R3'']" by simp
  from chromosome_decoding_blocks[OF h1 h2 h3]
  obtain asg where a: "chromosome_to_assignment [''R1'', ''R2'', ''R3''] 2 [2, 0, 1] = Inr asg"
    "concat (map snd asg) = map (\<lambda>g. [''R1'', ''R2'', ''R3''] ! nat g) [2, 0, 1]"
    by blast
  have "map (\<lambda>g. [''R1'', ''R2'', ''R3''] ! nat g) [2, 0, 1] = [''R3'', ''R1'', ''R2'']"
    by code_simp
  with a h1 h2 h3 show ?thesis by (simp only: simp_thms) blast
qed

end
